theory Spec2Isabelle
  imports Main "HOL-Library.Word"
begin

unbundle bit_operations_syntax

section \<open>Data model of validator/validator\_spawner.go\<close>

type_synonym byte = "8 word"
type_synonym hash = nat

text \<open>
  Go errors. \<open>Errorf msg e\<close> is \<^verbatim>\<open>fmt.Errorf(msg + ": %w", e)\<close>, \<open>ErrorNew msg\<close> is
  \<^verbatim>\<open>errors.New(msg)\<close>, \<open>ErrNotReady\<close> is the package variable of that name, and
  \<open>External n\<close> stands for an error value produced by a collaborator outside this
  file (machine, loader, context, operating system).
\<close>

datatype error =
    ErrNotReady
  | ErrorNew string
  | Errorf string error
  | External nat

text \<open>A Go panic ends the process; the only one this file can raise by itself.\<close>

datatype panic = CloseOfClosedChannel

text \<open>\<^verbatim>\<open>GoGlobalState\<close>, by the fields this file reads.\<close>

record GoGlobalState =
  BlockHash :: hash
  Batch :: "64 word"
  PosInBatch :: "64 word"

definition GoGlobalState_zero :: GoGlobalState where
  "GoGlobalState_zero = \<lparr>BlockHash = 0, Batch = 0, PosInBatch = 0\<rparr>"

record BatchInfo =
  Number :: "64 word"
  Data :: "byte list"

record ValidationInput =
  Id :: "64 word"
  HasDelayedMsg :: bool
  DelayedMsgNr :: "64 word"
  Preimages :: "hash \<rightharpoonup> byte list"
  BatchInfo :: "BatchInfo list"
  DelayedMsg :: "byte list"
  StartState :: GoGlobalState

section \<open>The one-shot future: readyMarker and valRun\<close>

text \<open>
  \<open>chanReady\<close> holds whether the channel has been closed; \<open>boolReady\<close> is the
  \<^verbatim>\<open>int32\<close> flag; \<open>err\<close> is \<open>None\<close> for Go's \<^verbatim>\<open>nil\<close>.
\<close>

record readyMarker =
  chanReady :: bool
  boolReady :: "32 word"
  err :: "error option"

record valRun = readyMarker +
  root :: hash
  result :: GoGlobalState

definition Ready :: "'a readyMarker_scheme \<Rightarrow> bool" where
  "Ready d = (boolReady d \<noteq> 0)"

definition signalReady :: "error option \<Rightarrow> 'a readyMarker_scheme \<Rightarrow> panic + 'a readyMarker_scheme" where
  "signalReady e d =
     (let d1 = d\<lparr>err := e\<rparr>;
          d2 = d1\<lparr>boolReady := 1\<rparr>
      in if chanReady d2 then Inl CloseOfClosedChannel
         else Inr (d2\<lparr>chanReady := True\<rparr>))"

definition NewvalRun :: "hash \<Rightarrow> valRun" where
  "NewvalRun r = \<lparr>chanReady = False, boolReady = 0, err = None,
                  root = r, result = GoGlobalState_zero\<rparr>"

definition Result :: "valRun \<Rightarrow> GoGlobalState \<times> error option" where
  "Result r = (if \<not> Ready r then (GoGlobalState_zero, Some ErrNotReady)
               else (result r, err r))"

definition WasmModuleRoot :: "valRun \<Rightarrow> hash" where
  "WasmModuleRoot r = root r"

definition consumeResult :: "GoGlobalState \<times> error option \<Rightarrow> valRun \<Rightarrow> panic + valRun" where
  "consumeResult p r = signalReady (snd p) (r\<lparr>result := fst p\<rparr>)"

section \<open>The machine handle, an external collaborator\<close>

text \<open>
  \<^verbatim>\<open>ArbitratorMachine\<close> is implemented outside this file. Its operations are taken as
  parameters over an arbitrary machine state \<open>'m\<close>; an operation that returns a Go
  error is a function into \<open>error + 'm\<close>. The context argument of \<^verbatim>\<open>Step\<close> is part of
  the parameter (a cancelled context is one more way for \<open>mStep\<close> to return an error).
\<close>

record 'm ArbitratorMachine =
  mClone :: "'m \<Rightarrow> 'm"
  mSetPreimageResolver :: "(hash \<Rightarrow> error + byte list) \<Rightarrow> 'm \<Rightarrow> error + 'm"
  mSetGlobalState :: "GoGlobalState \<Rightarrow> 'm \<Rightarrow> error + 'm"
  mAddSequencerInboxMessage :: "64 word \<Rightarrow> byte list \<Rightarrow> 'm \<Rightarrow> error + 'm"
  mAddDelayedInboxMessage :: "64 word \<Rightarrow> byte list \<Rightarrow> 'm \<Rightarrow> error + 'm"
  mIsRunning :: "'m \<Rightarrow> bool"
  mIsErrored :: "'m \<Rightarrow> bool"
  mStep :: "64 word \<Rightarrow> 'm \<Rightarrow> error + 'm"
  mGetGlobalState :: "'m \<Rightarrow> GoGlobalState"

text \<open>
  Every call that this file makes on a machine handle is recorded, in order, in the
  handle's \<open>log\<close>: what is invoked, and when, is then a property of the log.
\<close>

datatype call =
    CallClone
  | CallDestroy
  | CallFreeze
  | CallSetPreimageResolver
  | CallSetGlobalState GoGlobalState
  | CallAddSequencerInboxMessage "64 word" "byte list"
  | CallAddDelayedInboxMessage "64 word" "byte list"
  | CallStep "64 word"

record 'm handle =
  st :: 'm
  log :: "call list"

definition invoke :: "call \<Rightarrow> ('m \<Rightarrow> error + 'm) \<Rightarrow> 'm handle \<Rightarrow> error option \<times> 'm handle" where
  "invoke c f h =
     (case f (st h) of
        Inl e \<Rightarrow> (Some e, h\<lparr>log := log h @ [c]\<rparr>)
      | Inr m \<Rightarrow> (None, \<lparr>st = m, log = log h @ [c]\<rparr>))"

definition Clone :: "'m ArbitratorMachine \<Rightarrow> 'm \<Rightarrow> 'm handle" where
  "Clone M base = \<lparr>st = mClone M base, log = [CallClone]\<rparr>"

definition Destroy :: "'m handle \<Rightarrow> 'm handle" where
  "Destroy h = h\<lparr>log := log h @ [CallDestroy]\<rparr>"

definition Freeze :: "'m handle \<Rightarrow> 'm handle" where
  "Freeze h = h\<lparr>log := log h @ [CallFreeze]\<rparr>"

section \<open>ArbitratorSpawner.loadEntryToMachine\<close>

definition resolver :: "ValidationInput \<Rightarrow> hash \<Rightarrow> error + byte list" where
  "resolver entry h =
     (case Preimages entry h of
        Some preimage \<Rightarrow> Inr preimage
      | None \<Rightarrow> Inl (ErrorNew ''preimage not found''))"

text \<open>The \<^verbatim>\<open>for _, batch := range entry.BatchInfo\<close> loop.\<close>

fun feedBatches :: "'m ArbitratorMachine \<Rightarrow> BatchInfo list \<Rightarrow> 'm handle \<Rightarrow> error option \<times> 'm handle" where
  "feedBatches M [] h = (None, h)"
| "feedBatches M (batch # rest) h =
     (case invoke (CallAddSequencerInboxMessage (Number batch) (Data batch))
             (mAddSequencerInboxMessage M (Number batch) (Data batch)) h of
        (Some e, h') \<Rightarrow>
          (Some (Errorf ''error while trying to add sequencer msg for proving'' e), h')
      | (None, h') \<Rightarrow> feedBatches M rest h')"

definition loadEntryToMachine ::
  "'m ArbitratorMachine \<Rightarrow> ValidationInput \<Rightarrow> 'm handle \<Rightarrow> error option \<times> 'm handle" where
  "loadEntryToMachine M entry mach =
     (case invoke CallSetPreimageResolver (mSetPreimageResolver M (resolver entry)) mach of
        (Some e, h1) \<Rightarrow> (Some e, h1)
      | (None, h1) \<Rightarrow>
     (case invoke (CallSetGlobalState (StartState entry))
             (mSetGlobalState M (StartState entry)) h1 of
        (Some e, h2) \<Rightarrow> (Some (Errorf ''error while setting global state for proving'' e), h2)
      | (None, h2) \<Rightarrow>
     (case feedBatches M (BatchInfo entry) h2 of
        (Some e, h3) \<Rightarrow> (Some e, h3)
      | (None, h3) \<Rightarrow>
     (if HasDelayedMsg entry then
        (case invoke (CallAddDelayedInboxMessage (DelayedMsgNr entry) (DelayedMsg entry))
                (mAddDelayedInboxMessage M (DelayedMsgNr entry) (DelayedMsg entry)) h3 of
           (Some e, h4) \<Rightarrow>
             (Some (Errorf ''error while trying to add delayed msg for proving'' e), h4)
         | (None, h4) \<Rightarrow> (None, h4))
      else (None, h3)))))"

section \<open>ArbitratorSpawner.execute\<close>

text \<open>
  The \<^verbatim>\<open>for mach.IsRunning()\<close> loop. Nothing in this file bounds the number of
  iterations, so the loop is a partial function: \<open>None\<close> is a loop that never exits.
\<close>

partial_function (option) stepLoop ::
  "'m ArbitratorMachine \<Rightarrow> 64 word \<Rightarrow> 'm handle \<Rightarrow> (error option \<times> 'm handle) option" where
  "stepLoop M steps mach =
     (if mIsRunning M (st mach) then
        (let count = 500000000 in
         case invoke (CallStep count) (mStep M count) mach of
           (Some e, h) \<Rightarrow> Some (Some (Errorf ''machine execution failed with error'' e), h)
         | (None, h) \<Rightarrow> stepLoop M (steps + count) h)
      else Some (None, mach))"

text \<open>
  \<open>execute\<close> returns the Go result pair together with the log of the clone it made
  (empty when no clone was made). \<^verbatim>\<open>defer mach.Destroy()\<close> runs at every return after
  the clone.
\<close>

definition execute ::
  "'m ArbitratorMachine \<Rightarrow> (hash \<Rightarrow> error + 'm) \<Rightarrow> ValidationInput \<Rightarrow> hash
     \<Rightarrow> ((GoGlobalState \<times> error option) \<times> call list) option" where
  "execute M GetHostIoMachine entry moduleRoot =
     (case GetHostIoMachine moduleRoot of
        Inl e \<Rightarrow> Some ((GoGlobalState_zero, Some (Errorf ''unabled to get WASM machine'' e)), [])
      | Inr basemachine \<Rightarrow>
     (case loadEntryToMachine M entry (Clone M basemachine) of
        (Some e, h1) \<Rightarrow> Some ((GoGlobalState_zero, Some e), log (Destroy h1))
      | (None, h1) \<Rightarrow>
     (case stepLoop M 0 h1 of
        None \<Rightarrow> None
      | Some (Some e, h2) \<Rightarrow> Some ((GoGlobalState_zero, Some e), log (Destroy h2))
      | Some (None, h2) \<Rightarrow>
          (if mIsErrored M (st h2) then
             Some ((GoGlobalState_zero,
                    Some (ErrorNew ''machine entered errored state during attempted validation'')),
                   log (Destroy h2))
           else Some ((mGetGlobalState M (st h2), None), log (Destroy h2))))))"

section \<open>ArbitratorSpawner.CreateExecutionBackend\<close>

text \<open>
  \<open>NewBackend\<close> is the external constructor \<^verbatim>\<open>NewExecutionChallengeBackend\<close>; it receives
  the frozen machine and the configured target machine count.
\<close>

definition CreateExecutionBackend ::
  "'m ArbitratorMachine \<Rightarrow> (hash \<Rightarrow> error + 'm) \<Rightarrow> ('m \<Rightarrow> 64 word \<Rightarrow> error + 'b) \<Rightarrow> 64 word
     \<Rightarrow> hash \<Rightarrow> ValidationInput \<Rightarrow> (error + 'b) \<times> call list" where
  "CreateExecutionBackend M GetZeroStepMachine NewBackend TargetMachineCount wasmModuleRoot input =
     (case GetZeroStepMachine wasmModuleRoot of
        Inl e \<Rightarrow> (Inl e, [])
      | Inr initialFrozenMachine \<Rightarrow>
     (case loadEntryToMachine M input (Clone M initialFrozenMachine) of
        (Some e, h1) \<Rightarrow> (Inl e, log h1)
      | (None, h1) \<Rightarrow>
          (let machine = Freeze h1
           in (NewBackend (st machine) TargetMachineCount, log machine))))"

section \<open>JitSpawner.execute\<close>


section \<open>The spawners\<close>

text \<open>
  \<^verbatim>\<open>ArbitratorSpawner\<close> and \<^verbatim>\<open>JitSpawner\<close> have the same mutable fields: the embedded
  \<^verbatim>\<open>StopWaiter\<close> and the \<^verbatim>\<open>int32\<close> counter. Locator, loader and configuration are
  read-only and passed as arguments. \<^verbatim>\<open>StopWaiter\<close> lives in another package; its state
  is an arbitrary type \<open>'sw\<close> and its methods are the parameters \<open>Started\<close> and \<open>Start\<close>.
\<close>

record 'sw spawner =
  StopWaiter :: 'sw
  count :: "32 word"

record 'sw StopWaiter_methods =
  Started :: "'sw \<Rightarrow> bool"
  Start :: "nat \<Rightarrow> 'sw \<Rightarrow> 'sw"

record ArbitratorSpawnerConfig =
  ConcurrentRuns :: "64 word"
  OutputPath :: string
  TargetMachineCount :: "64 word"

record JitSpawnerConfig =
  JitConcurrentRuns :: "64 word"
  Cranelift :: bool

definition ArbitratorSpawner_Start ::
  "'sw StopWaiter_methods \<Rightarrow> nat \<Rightarrow> ('sw, 'a) spawner_scheme \<Rightarrow> ('sw, 'a) spawner_scheme" where
  "ArbitratorSpawner_Start W ctx_in s =
     (if \<not> Started W (StopWaiter s) then s\<lparr>StopWaiter := Start W ctx_in (StopWaiter s)\<rparr>
      else s)"

definition JitSpawner_Start ::
  "'sw StopWaiter_methods \<Rightarrow> nat \<Rightarrow> ('sw, 'a) spawner_scheme \<Rightarrow> ('sw, 'a) spawner_scheme" where
  "JitSpawner_Start W ctx_in v = v\<lparr>StopWaiter := Start W ctx_in (StopWaiter v)\<rparr>"

text \<open>
  Go's \<^verbatim>\<open>int\<close> is taken as 64 bits wide; \<open>NumCPU\<close> is the value of \<^verbatim>\<open>runtime.NumCPU()\<close>.
  \<^verbatim>\<open>int(count)\<close> sign-extends the counter.
\<close>

definition ArbitratorSpawner_Room ::
  "ArbitratorSpawnerConfig \<Rightarrow> 64 word \<Rightarrow> ('sw, 'a) spawner_scheme \<Rightarrow> 64 word" where
  "ArbitratorSpawner_Room config NumCPU v =
     (let avail = ConcurrentRuns config;
          avail = (if avail = 0 then NumCPU else avail)
      in avail - scast (count v))"

definition JitSpawner_Room ::
  "JitSpawnerConfig \<Rightarrow> 64 word \<Rightarrow> ('sw, 'a) spawner_scheme \<Rightarrow> 64 word" where
  "JitSpawner_Room config NumCPU v =
     (let avail = JitConcurrentRuns config;
          avail = (if avail = 0 then NumCPU else avail)
      in avail - scast (count v))"

subsection \<open>Launch and the background threads\<close>

text \<open>
  A spawner at run time: its fields, the \<^verbatim>\<open>valRun\<close> objects it has allocated (a pointer
  is an index into \<open>heap\<close>) and the closures handed to \<^verbatim>\<open>LaunchThread\<close> or \<^verbatim>\<open>go\<close> that have
  not finished yet. A closure captures the run, the entry and the module root.
\<close>

record thread =
  t_run :: nat
  t_entry :: ValidationInput
  t_moduleRoot :: hash

record 'sw process = "'sw spawner" +
  heap :: "valRun list"
  threads :: "thread list"

text \<open>
  \<^verbatim>\<open>ArbitratorSpawner.Launch\<close> and \<^verbatim>\<open>JitSpawner.Launch\<close> are the same three statements;
  the closures differ in the \<open>execute\<close> they call, which is the parameter \<open>exec\<close> of
  \<open>thread_body\<close>.
\<close>

definition Launch :: "ValidationInput \<Rightarrow> hash \<Rightarrow> 'sw process \<Rightarrow> nat \<times> 'sw process" where
  "Launch entry moduleRoot v =
     (let v1 = v\<lparr>count := count v + 1\<rparr>;
          run = length (heap v1);
          v2 = v1\<lparr>heap := heap v1 @ [NewvalRun moduleRoot]\<rparr>;
          v3 = v2\<lparr>threads := threads v2 @
                 [\<lparr>t_run = run, t_entry = entry, t_moduleRoot = moduleRoot\<rparr>]\<rparr>
      in (run, v3))"

type_synonym executor = "ValidationInput \<Rightarrow> hash \<Rightarrow> (GoGlobalState \<times> error option) option"

definition arbitrator_exec :: "'m ArbitratorMachine \<Rightarrow> (hash \<Rightarrow> error + 'm) \<Rightarrow> executor" where
  "arbitrator_exec M GetHostIoMachine entry moduleRoot =
     map_option fst (execute M GetHostIoMachine entry moduleRoot)"

text \<open>
  The closure: \<^verbatim>\<open>run.consumeResult(v.execute(...))\<close>, then the deferred decrement.
  \<open>None\<close>: \<open>execute\<close> does not return, and neither does the thread.
\<close>

definition thread_body :: "executor \<Rightarrow> thread \<Rightarrow> 'sw process \<Rightarrow> (panic + 'sw process) option" where
  "thread_body exec t v =
     (case exec (t_entry t) (t_moduleRoot t) of
        None \<Rightarrow> None
      | Some res \<Rightarrow>
          (case consumeResult res (heap v ! t_run t) of
             Inl p \<Rightarrow> Some (Inl p)
           | Inr r \<Rightarrow> Some (Inr (v\<lparr>heap := (heap v)[t_run t := r], count := count v - 1\<rparr>))))"

text \<open>The \<open>i\<close>-th unfinished thread runs to its end.\<close>

definition finish :: "executor \<Rightarrow> nat \<Rightarrow> 'sw process \<Rightarrow> (panic + 'sw process) option" where
  "finish exec i v =
     (if i < length (threads v) then
        thread_body exec (threads v ! i)
          (v\<lparr>threads := take i (threads v) @ drop (Suc i) (threads v)\<rparr>)
      else None)"

datatype action = ActLaunch ValidationInput hash | ActFinish nat

fun steps :: "executor \<Rightarrow> action list \<Rightarrow> 'sw process \<Rightarrow> 'sw process option" where
  "steps exec [] v = Some v"
| "steps exec (ActLaunch entry moduleRoot # as) v = steps exec as (snd (Launch entry moduleRoot v))"
| "steps exec (ActFinish i # as) v =
     (case finish exec i v of
        Some (Inr v') \<Rightarrow> steps exec as v'
      | _ \<Rightarrow> None)"

text \<open>
  A process as the constructors leave it, before any launch: counter zero, no run
  allocated, no thread. Every state reached from it keeps \<open>consistent\<close>.
\<close>

definition initial :: "'sw \<Rightarrow> 'sw process" where
  "initial sw = \<lparr>StopWaiter = sw, count = 0, heap = [], threads = []\<rparr>"

definition consistent :: "'sw process \<Rightarrow> bool" where
  "consistent v \<longleftrightarrow>
     distinct (map t_run (threads v)) \<and>
     (\<forall>t \<in> set (threads v). t_run t < length (heap v) \<and> \<not> chanReady (heap v ! t_run t)
         \<and> \<not> Ready (heap v ! t_run t))"

subsection \<open>readyMarker.WaitReady\<close>




section \<open>ArbitratorSpawner.WriteToFile: preimages.bin\<close>

text \<open>\<^verbatim>\<open>binary.LittleEndian.PutUint64\<close> into a fresh 8-byte slice.\<close>

definition PutUint64 :: "64 word \<Rightarrow> byte list" where
  "PutUint64 v =
     [ucast v, ucast (drop_bit 8 v), ucast (drop_bit 16 v), ucast (drop_bit 24 v),
      ucast (drop_bit 32 v), ucast (drop_bit 40 v), ucast (drop_bit 48 v), ucast (drop_bit 56 v)]"

text \<open>
  An open file: what has been written, and the outcomes of the coming \<^verbatim>\<open>Write\<close> calls
  (\<open>None\<close>: all bytes written; \<open>Some (n, e)\<close>: \<open>n\<close> bytes written, then error \<open>e\<close>). Once
  the list is used up every write succeeds.
\<close>

record osfile =
  content :: "byte list"
  upcoming :: "(nat \<times> error) option list"

definition os_Create :: "error option \<Rightarrow> (nat \<times> error) option list \<Rightarrow> error + osfile" where
  "os_Create failure sched =
     (case failure of Some e \<Rightarrow> Inl e | None \<Rightarrow> Inr \<lparr>content = [], upcoming = sched\<rparr>)"

definition file_Write :: "byte list \<Rightarrow> osfile \<Rightarrow> error option \<times> osfile" where
  "file_Write bs f =
     (case upcoming f of
        [] \<Rightarrow> (None, f\<lparr>content := content f @ bs\<rparr>)
      | None # rest \<Rightarrow> (None, \<lparr>content = content f @ bs, upcoming = rest\<rparr>)
      | Some (n, e) # rest \<Rightarrow> (Some e, \<lparr>content = content f @ take n bs, upcoming = rest\<rparr>))"

text \<open>
  \<^verbatim>\<open>for _, data := range input.Preimages\<close>: Go visits the entries of the map in an order
  of its choosing, \<open>order\<close>; \<open>iteration_of\<close> says that \<open>order\<close> is such an order.
\<close>

definition iteration_of :: "('k \<rightharpoonup> 'v) \<Rightarrow> 'k list \<Rightarrow> bool" where
  "iteration_of m order \<longleftrightarrow> distinct order \<and> set order = dom m"

definition range_values :: "('k \<rightharpoonup> 'v) \<Rightarrow> 'k list \<Rightarrow> 'v list" where
  "range_values m order = map (\<lambda>k. the (m k)) order"

fun writeRecords :: "byte list list \<Rightarrow> osfile \<Rightarrow> error option \<times> osfile" where
  "writeRecords [] preimageFile = (None, preimageFile)"
| "writeRecords (data # rest) preimageFile =
     (let lenbytes = PutUint64 (of_nat (length data)) in
      case file_Write lenbytes preimageFile of
        (Some e, f1) \<Rightarrow> (Some e, f1)
      | (None, f1) \<Rightarrow>
          (case file_Write data f1 of
             (Some e, f2) \<Rightarrow> (Some e, f2)
           | (None, f2) \<Rightarrow> writeRecords rest f2))"

definition writePreimages ::
  "error + osfile \<Rightarrow> ValidationInput \<Rightarrow> hash list \<Rightarrow> error option \<times> osfile option" where
  "writePreimages created input order =
     (case created of
        Inl e \<Rightarrow> (Some e, None)
      | Inr preimageFile \<Rightarrow>
          (case writeRecords (range_values (Preimages input) order) preimageFile of
             (e, f) \<Rightarrow> (e, Some f)))"

text \<open>
  The file format in the words of the specification: per entry, the length as 8
  little-endian bytes, then the bytes.
\<close>

fun le_bytes :: "nat \<Rightarrow> nat \<Rightarrow> byte list" where
  "le_bytes 0 v = []"
| "le_bytes (Suc n) v = of_nat (v mod 256) # le_bytes n (v div 256)"

definition preimages_bin :: "byte list list \<Rightarrow> byte list" where
  "preimages_bin ds = concat (map (\<lambda>d. le_bytes 8 (length d) @ d) ds)"

section \<open>Notions used to state the properties\<close>

text \<open>
  \<open>run_steps M k m\<close>: the machine state after \<open>k\<close> iterations of the stepping loop from
  \<open>m\<close>, each entered with the machine running and each \<^verbatim>\<open>Step\<close> returning no error;
  \<open>None\<close> when the loop does not get that far.
\<close>

fun run_steps :: "'m ArbitratorMachine \<Rightarrow> nat \<Rightarrow> 'm \<Rightarrow> 'm option" where
  "run_steps M 0 m = Some m"
| "run_steps M (Suc k) m =
     (if mIsRunning M m then
        (case mStep M 500000000 m of Inl e \<Rightarrow> None | Inr m' \<Rightarrow> run_steps M k m')
      else None)"

text \<open>The three exits of the loop of \<open>execute\<close>, started on machine state \<open>m\<close>, with result \<open>r\<close>.\<close>

definition stops_clean :: "'m ArbitratorMachine \<Rightarrow> 'm \<Rightarrow> GoGlobalState \<times> error option \<Rightarrow> bool" where
  "stops_clean M m r \<longleftrightarrow>
     (\<exists>k m'. run_steps M k m = Some m' \<and> \<not> mIsRunning M m' \<and> \<not> mIsErrored M m' \<and>
        r = (mGetGlobalState M m', None))"

definition stops_faulted :: "'m ArbitratorMachine \<Rightarrow> 'm \<Rightarrow> GoGlobalState \<times> error option \<Rightarrow> bool" where
  "stops_faulted M m r \<longleftrightarrow>
     (\<exists>k m'. run_steps M k m = Some m' \<and> \<not> mIsRunning M m' \<and> mIsErrored M m' \<and>
        r = (GoGlobalState_zero,
             Some (ErrorNew ''machine entered errored state during attempted validation'')))"

definition step_fails :: "'m ArbitratorMachine \<Rightarrow> 'm \<Rightarrow> GoGlobalState \<times> error option \<Rightarrow> bool" where
  "step_fails M m r \<longleftrightarrow>
     (\<exists>k m' e. run_steps M k m = Some m' \<and> mIsRunning M m' \<and> mStep M 500000000 m' = Inl e \<and>
        r = (GoGlobalState_zero, Some (Errorf ''machine execution failed with error'' e)))"



subsection \<open>Test doubles\<close>

text \<open>
  A machine whose state is a step counter: it runs for two iterations, every operation
  succeeds, and it ends on batch 5, position 13.
\<close>

definition mock :: "nat ArbitratorMachine" where
  "mock = \<lparr>mClone = (\<lambda>m. m),
           mSetPreimageResolver = (\<lambda>r m. Inr m),
           mSetGlobalState = (\<lambda>g m. Inr m),
           mAddSequencerInboxMessage = (\<lambda>n d m. Inr m),
           mAddDelayedInboxMessage = (\<lambda>n d m. Inr m),
           mIsRunning = (\<lambda>m. m < 2),
           mIsErrored = (\<lambda>m. False),
           mStep = (\<lambda>c m. Inr (Suc m)),
           mGetGlobalState = (\<lambda>m. \<lparr>BlockHash = 3, Batch = 5, PosInBatch = 13\<rparr>)\<rparr>"

definition mock_loader :: "hash \<Rightarrow> error + nat" where
  "mock_loader moduleRoot = Inr 0"

definition entry42 :: ValidationInput where
  "entry42 = \<lparr>Id = 42, HasDelayedMsg = True, DelayedMsgNr = 9, Preimages = [2 \<mapsto> [120, 121, 122]],
              BatchInfo = [\<lparr>Number = 5, Data = [97, 98, 99]\<rparr>], DelayedMsg = [100],
              StartState = \<lparr>BlockHash = 1, Batch = 5, PosInBatch = 10\<rparr>\<rparr>"

text \<open>A \<^verbatim>\<open>StopWaiter\<close> that remembers the context of the last \<^verbatim>\<open>Start\<close>.\<close>

record waiter =
  w_started :: bool
  w_parent :: nat

definition waiter_methods :: "waiter StopWaiter_methods" where
  "waiter_methods = \<lparr>Started = w_started,
                     Start = (\<lambda>ctx w. \<lparr>w_started = True, w_parent = ctx\<rparr>)\<rparr>"





definition mock_bad_globalstate :: "nat ArbitratorMachine" where
  "mock_bad_globalstate = mock\<lparr>mSetGlobalState := (\<lambda>g m. Inl (External 2))\<rparr>"


definition mock_backend :: "nat \<Rightarrow> 64 word \<Rightarrow> error + nat" where
  "mock_backend machine targetCount = Inr machine"

text \<open>One launch of \<open>entry42\<close> on a fresh spawner.\<close>

definition launched :: "unit process" where
  "launched = snd (Launch entry42 7 (initial ()))"

text \<open>A spawner that has been started with context 1.\<close>

definition started_spawner :: "waiter spawner" where
  "started_spawner = \<lparr>StopWaiter = \<lparr>w_started = True, w_parent = 1\<rparr>, count = 0\<rparr>"



text \<open>\<open>N\<close> launches in a row.\<close>

definition launches :: "(ValidationInput \<times> hash) list \<Rightarrow> action list" where
  "launches ls = map (\<lambda>(entry, moduleRoot). ActLaunch entry moduleRoot) ls"

section \<open>Properties\<close>

subsection \<open>The future and the threads\<close>

lemma Result_not_ready: "\<not> Ready r \<Longrightarrow> Result r = (GoGlobalState_zero, Some ErrNotReady)"
  by (simp add: Result_def)

lemma consumeResult_open:
  "\<not> chanReady r \<Longrightarrow>
   consumeResult res r = Inr (r\<lparr>chanReady := True, boolReady := 1, err := snd res, result := fst res\<rparr>)"
  by (simp add: consumeResult_def signalReady_def Let_def)

lemma consumeResult_closed: "chanReady r \<Longrightarrow> consumeResult res r = Inl CloseOfClosedChannel"
  by (simp add: consumeResult_def signalReady_def Let_def)

lemma consistent_Launch: "consistent v \<Longrightarrow> consistent (snd (Launch entry moduleRoot v))"
  by (auto simp: consistent_def Launch_def Let_def nth_append NewvalRun_def Ready_def)

lemma finish_Inr:
  assumes "finish exec i v = Some (Inr v')"
  obtains res where "i < length (threads v)"
    "exec (t_entry (threads v ! i)) (t_moduleRoot (threads v ! i)) = Some res"
    "\<not> chanReady (heap v ! t_run (threads v ! i))"
    "v' = v\<lparr>threads := take i (threads v) @ drop (Suc i) (threads v),
            heap := (heap v)[t_run (threads v ! i) :=
               (heap v ! t_run (threads v ! i))\<lparr>chanReady := True, boolReady := 1, err := snd res, result := fst res\<rparr>],
            count := count v - 1\<rparr>"
  using assms
  apply (simp add: finish_def thread_body_def split: if_splits option.splits sum.splits)
  apply (cases "chanReady (heap v ! t_run (threads v ! i))")
   apply (simp add: consumeResult_closed)
  apply (auto simp add: consumeResult_open)
  done

lemma set_remove_nth: "set (take i xs @ drop (Suc i) xs) \<subseteq> set xs"
  by (auto dest: in_set_takeD in_set_dropD)

lemma distinct_remove_nth: "distinct (map f xs) \<Longrightarrow> distinct (map f (take i xs @ drop (Suc i) xs))"
proof -
  assume d: "distinct (map f xs)"
  have "set (take i (map f xs)) \<inter> set (drop (Suc i) (map f xs)) = {}"
    using d by (simp add: set_take_disj_set_drop_if_distinct)
  then show ?thesis using d by (simp add: take_map drop_map distinct_take distinct_drop flip: take_map drop_map)
qed

lemma consistent_finish:
  assumes "consistent v" "finish exec i v = Some (Inr v')"
  shows "consistent v'"
proof -
  from assms(2) obtain res where i: "i < length (threads v)"
    and v': "v' = v\<lparr>threads := take i (threads v) @ drop (Suc i) (threads v),
            heap := (heap v)[t_run (threads v ! i) :=
               (heap v ! t_run (threads v ! i))\<lparr>chanReady := True, boolReady := 1, err := snd res, result := fst res\<rparr>],
            count := count v - 1\<rparr>"
    by (rule finish_Inr)
  let ?ts = "take i (threads v) @ drop (Suc i) (threads v)"
  have d: "distinct (map t_run (threads v))" using assms(1) by (simp add: consistent_def)
  have sub: "set ?ts \<subseteq> set (threads v)" by (rule set_remove_nth)
  have ne: "t_run t \<noteq> t_run (threads v ! i)" if "t \<in> set ?ts" for t
  proof -
    have "threads v = take i (threads v) @ (threads v ! i) # drop (Suc i) (threads v)"
      using i by (simp add: id_take_nth_drop)
    then have "distinct (map t_run (take i (threads v) @ (threads v ! i) # drop (Suc i) (threads v)))"
      using d by simp
    then show ?thesis using that by (auto simp: image_iff)
  qed
  have props: "t_run t < length (heap v') \<and> \<not> chanReady (heap v' ! t_run t) \<and> \<not> Ready (heap v' ! t_run t)"
    if "t \<in> set ?ts" for t
  proof -
    have "t \<in> set (threads v)" using that sub by blast
    then have "t_run t < length (heap v) \<and> \<not> chanReady (heap v ! t_run t) \<and> \<not> Ready (heap v ! t_run t)"
      using assms(1) by (simp add: consistent_def)
    then show ?thesis using ne[OF that] by (simp add: v')
  qed
  have "threads v' = ?ts" by (simp add: v')
  then show ?thesis
    unfolding consistent_def using distinct_remove_nth[OF d, of i] props by simp
qed

lemma consistent_steps:
  "consistent v \<Longrightarrow> steps exec acts v = Some v' \<Longrightarrow> consistent v'"
proof (induction acts arbitrary: v)
  case Nil
  then show ?case by simp
next
  case (Cons a acts)
  show ?case
  proof (cases a)
    case (ActLaunch entry moduleRoot)
    with Cons.prems have "steps exec acts (snd (Launch entry moduleRoot v)) = Some v'" by simp
    with consistent_Launch[OF Cons.prems(1)] show ?thesis by (rule Cons.IH)
  next
    case (ActFinish i)
    with Cons.prems obtain v1 where f: "finish exec i v = Some (Inr v1)"
      and s: "steps exec acts v1 = Some v'"
      by (auto split: option.splits sum.splits)
    from consistent_finish[OF Cons.prems(1) f] s show ?thesis
      by (rule Cons.IH)
  qed
qed

lemma Launch_keeps_run:
  "p < length (heap v) \<Longrightarrow>
   heap (snd (Launch entry moduleRoot v)) ! p = heap v ! p \<and>
   p < length (heap (snd (Launch entry moduleRoot v)))"
  by (simp add: Launch_def Let_def nth_append)

lemma finish_keeps_resolved:
  assumes "consistent v" "finish exec i v = Some (Inr v')" "p < length (heap v)"
    "Ready (heap v ! p)"
  shows "heap v' ! p = heap v ! p \<and> p < length (heap v')"
proof -
  from assms(2) obtain res where i: "i < length (threads v)"
    and v': "v' = v\<lparr>threads := take i (threads v) @ drop (Suc i) (threads v),
            heap := (heap v)[t_run (threads v ! i) :=
               (heap v ! t_run (threads v ! i))\<lparr>chanReady := True, boolReady := 1, err := snd res, result := fst res\<rparr>],
            count := count v - 1\<rparr>"
    by (rule finish_Inr)
  have "\<not> Ready (heap v ! t_run (threads v ! i))"
    using assms(1) i by (simp add: consistent_def)
  then have "t_run (threads v ! i) \<noteq> p" using assms(4) by auto
  then show ?thesis using assms(3) by (simp add: v')
qed

lemma resolved_stable:
  "consistent v \<Longrightarrow> p < length (heap v) \<Longrightarrow> Ready (heap v ! p) \<Longrightarrow>
   steps exec acts v = Some v' \<Longrightarrow> heap v' ! p = heap v ! p \<and> p < length (heap v')"
proof (induction acts arbitrary: v)
  case Nil
  then show ?case by simp
next
  case (Cons a acts)
  show ?case
  proof (cases a)
    case (ActLaunch entry moduleRoot)
    let ?v1 = "snd (Launch entry moduleRoot v)"
    have "heap v' ! p = heap ?v1 ! p \<and> p < length (heap v')"
      using Cons.prems ActLaunch
      by (intro Cons.IH) (simp_all add: consistent_Launch Launch_keeps_run)
    then show ?thesis using Cons.prems by (simp add: Launch_keeps_run)
  next
    case (ActFinish i)
    with Cons.prems obtain v1 where f: "finish exec i v = Some (Inr v1)"
      and s: "steps exec acts v1 = Some v'"
      by (auto split: option.splits sum.splits)
    note k = finish_keeps_resolved[OF Cons.prems(1) f Cons.prems(2,3)]
    have "heap v' ! p = heap v1 ! p \<and> p < length (heap v')"
      using consistent_finish[OF Cons.prems(1) f] k Cons.prems(3) s
      by (intro Cons.IH) simp_all
    then show ?thesis using k by simp
  qed
qed

lemma finish_resolves:
  assumes "consistent v" "i < length (threads v)"
    "exec (t_entry (threads v ! i)) (t_moduleRoot (threads v ! i)) = Some res"
  shows "\<exists>v1. finish exec i v = Some (Inr v1) \<and> t_run (threads v ! i) < length (heap v1) \<and>
           Ready (heap v1 ! t_run (threads v ! i)) \<and>
           Result (heap v1 ! t_run (threads v ! i)) = res \<and>
           t_run (threads v ! i) \<notin> t_run ` set (threads v1) \<and>
           count v1 = count v - 1"
proof -
  let ?t = "threads v ! i"
  have t: "?t \<in> set (threads v)" using assms(2) by simp
  then have o: "\<not> chanReady (heap v ! t_run ?t)" and l: "t_run ?t < length (heap v)"
    using assms(1) by (auto simp: consistent_def)
  have f: "finish exec i v = Some (Inr (v\<lparr>threads := take i (threads v) @ drop (Suc i) (threads v),
            heap := (heap v)[t_run ?t :=
               (heap v ! t_run ?t)\<lparr>chanReady := True, boolReady := 1, err := snd res, result := fst res\<rparr>],
            count := count v - 1\<rparr>))" (is "_ = Some (Inr ?v1)")
    using assms(2,3) o by (simp add: finish_def thread_body_def consumeResult_open)
  have d: "distinct (map t_run (threads v))" using assms(1) by (simp add: consistent_def)
  have "threads v = take i (threads v) @ ?t # drop (Suc i) (threads v)"
    using assms(2) by (simp add: id_take_nth_drop)
  then have "distinct (map t_run (take i (threads v) @ ?t # drop (Suc i) (threads v)))"
    using d by simp
  then have n: "t_run ?t \<notin> t_run ` set (threads ?v1)" by auto
  show ?thesis
    using f l n by (intro exI[of _ ?v1]) (simp add: Ready_def Result_def)
qed

lemma consistent_initial: "consistent (initial sw)"
  by (simp add: consistent_def initial_def)

lemma reachable_consistent: "steps exec acts (initial sw) = Some v \<Longrightarrow> consistent v"
  using consistent_initial by (rule consistent_steps)

subsection \<open>The stepping loop\<close>

lemma stepLoop_complete_stop:
  "run_steps M k (st h) = Some m' \<Longrightarrow> \<not> mIsRunning M m' \<Longrightarrow>
   stepLoop M s h = Some (None, \<lparr>st = m', log = log h @ replicate k (CallStep 500000000)\<rparr>)"
proof (induction k arbitrary: h s)
  case 0
  then show ?case by (subst stepLoop.simps) simp
next
  case (Suc k)
  from Suc.prems(1) obtain m1 where r: "mIsRunning M (st h)" and s1: "mStep M 500000000 (st h) = Inr m1"
    and rs: "run_steps M k m1 = Some m'"
    by (auto split: if_splits sum.splits)
  let ?h1 = "\<lparr>st = m1, log = log h @ [CallStep 500000000]\<rparr>"
  have "stepLoop M (s + 500000000) ?h1 = Some (None, \<lparr>st = m', log = log ?h1 @ replicate k (CallStep 500000000)\<rparr>)"
    using rs Suc.prems(2) by (intro Suc.IH) simp_all
  then show ?case using r s1
    by (subst stepLoop.simps) (simp add: invoke_def replicate_app_Cons_same)
qed

lemma stepLoop_complete_fail:
  "run_steps M k (st h) = Some m' \<Longrightarrow> mIsRunning M m' \<Longrightarrow> mStep M 500000000 m' = Inl e \<Longrightarrow>
   \<exists>h'. stepLoop M s h = Some (Some (Errorf ''machine execution failed with error'' e), h') \<and>
        log h' = log h @ replicate (Suc k) (CallStep 500000000)"
proof (induction k arbitrary: h s)
  case 0
  then show ?case by (subst stepLoop.simps) (simp add: invoke_def)
next
  case (Suc k)
  from Suc.prems(1) obtain m1 where r: "mIsRunning M (st h)" and s1: "mStep M 500000000 (st h) = Inr m1"
    and rs: "run_steps M k m1 = Some m'"
    by (auto split: if_splits sum.splits)
  let ?h1 = "\<lparr>st = m1, log = log h @ [CallStep 500000000]\<rparr>"
  have "\<exists>h'. stepLoop M (s + 500000000) ?h1 = Some (Some (Errorf ''machine execution failed with error'' e), h') \<and>
        log h' = log ?h1 @ replicate (Suc k) (CallStep 500000000)"
    using rs Suc.prems(2,3) by (intro Suc.IH) simp_all
  then show ?case using r s1
    by (subst stepLoop.simps) (simp add: invoke_def replicate_app_Cons_same)
qed

lemma stepLoop_sound:
  "stepLoop M s h = Some y \<Longrightarrow>
   \<exists>k m'. run_steps M k (st h) = Some m' \<and>
     ((\<not> mIsRunning M m' \<and> y = (None, \<lparr>st = m', log = log h @ replicate k (CallStep 500000000)\<rparr>)) \<or>
      (\<exists>e. mIsRunning M m' \<and> mStep M 500000000 m' = Inl e \<and>
           fst y = Some (Errorf ''machine execution failed with error'' e) \<and>
           log (snd y) = log h @ replicate (Suc k) (CallStep 500000000)))"
proof (induction M s h y rule: stepLoop.raw_induct[rotated 1, consumes 1, case_names step])
  case (step f M s h y)
  show ?case
  proof (cases "mIsRunning M (st h)")
    case False
    with step(2) have "y = (None, h)" by simp
    then show ?thesis using False by (intro exI[of _ 0] exI[of _ "st h"]) simp
  next
    case True
    show ?thesis
    proof (cases "mStep M 500000000 (st h)")
      case (Inl e)
      with step(2) True have "fst y = Some (Errorf ''machine execution failed with error'' e)"
        and "log (snd y) = log h @ [CallStep 500000000]"
        by (auto simp: invoke_def)
      then show ?thesis using True Inl by (intro exI[of _ 0] exI[of _ "st h"]) simp
    next
      case (Inr m1)
      let ?h1 = "\<lparr>st = m1, log = log h @ [CallStep 500000000]\<rparr>"
      from step(2) True Inr have "f M (s + 500000000) ?h1 = Some y" by (simp add: invoke_def)
      from step(1)[OF this] obtain k m' where rs: "run_steps M k m1 = Some m'"
        and d: "(\<not> mIsRunning M m' \<and> y = (None, \<lparr>st = m', log = log ?h1 @ replicate k (CallStep 500000000)\<rparr>)) \<or>
      (\<exists>e. mIsRunning M m' \<and> mStep M 500000000 m' = Inl e \<and>
           fst y = Some (Errorf ''machine execution failed with error'' e) \<and>
           log (snd y) = log ?h1 @ replicate (Suc k) (CallStep 500000000))"
        by auto
      have "run_steps M (Suc k) (st h) = Some m'" using True Inr rs by simp
      then show ?thesis using d
        by (intro exI[of _ "Suc k"] exI[of _ m']) (simp add: replicate_app_Cons_same)
    qed
  qed
qed

subsection \<open>Loading an entry\<close>






subsection \<open>The exits of execute\<close>

lemma stops_clean_loop:
  assumes "stops_clean M (st h) r"
  shows "\<exists>h2. stepLoop M s h = Some (None, h2) \<and> \<not> mIsErrored M (st h2) \<and>
              r = (mGetGlobalState M (st h2), None)"
proof -
  from assms obtain k m' where "run_steps M k (st h) = Some m'" "\<not> mIsRunning M m'"
    and r: "\<not> mIsErrored M m'" "r = (mGetGlobalState M m', None)"
    unfolding stops_clean_def by blast
  from stepLoop_complete_stop[OF this(1,2)] r show ?thesis by simp
qed

lemma stops_faulted_loop:
  assumes "stops_faulted M (st h) r"
  shows "\<exists>h2. stepLoop M s h = Some (None, h2) \<and> mIsErrored M (st h2) \<and>
              r = (GoGlobalState_zero,
                   Some (ErrorNew ''machine entered errored state during attempted validation''))"
proof -
  from assms obtain k m' where "run_steps M k (st h) = Some m'" "\<not> mIsRunning M m'"
    and r: "mIsErrored M m'" "r = (GoGlobalState_zero,
                   Some (ErrorNew ''machine entered errored state during attempted validation''))"
    unfolding stops_faulted_def by blast
  from stepLoop_complete_stop[OF this(1,2)] r show ?thesis by simp
qed

lemma step_fails_loop:
  assumes "step_fails M (st h) r"
  shows "\<exists>e h2. stepLoop M s h = Some (Some (Errorf ''machine execution failed with error'' e), h2) \<and>
              r = (GoGlobalState_zero, Some (Errorf ''machine execution failed with error'' e))"
proof -
  from assms obtain k m' e where "run_steps M k (st h) = Some m'" "mIsRunning M m'"
    "mStep M 500000000 m' = Inl e"
    and r: "r = (GoGlobalState_zero, Some (Errorf ''machine execution failed with error'' e))"
    unfolding step_fails_def by blast
  from stepLoop_complete_fail[OF this(1,2,3)] r show ?thesis by blast
qed

lemma loop_exits:
  assumes "stepLoop M s h = Some (eo, h2)"
  shows "(eo = None \<and> \<not> mIsErrored M (st h2) \<and> stops_clean M (st h) (mGetGlobalState M (st h2), None)) \<or>
         (eo = None \<and> mIsErrored M (st h2) \<and> stops_faulted M (st h) (GoGlobalState_zero,
                   Some (ErrorNew ''machine entered errored state during attempted validation''))) \<or>
         (\<exists>e. eo = Some (Errorf ''machine execution failed with error'' e) \<and>
              step_fails M (st h) (GoGlobalState_zero, Some (Errorf ''machine execution failed with error'' e)))"
proof -
  from stepLoop_sound[OF assms] obtain k m' where rs: "run_steps M k (st h) = Some m'"
    and d: "(\<not> mIsRunning M m' \<and> (eo, h2) = (None, \<lparr>st = m', log = log h @ replicate k (CallStep 500000000)\<rparr>)) \<or>
      (\<exists>e. mIsRunning M m' \<and> mStep M 500000000 m' = Inl e \<and>
           fst (eo, h2) = Some (Errorf ''machine execution failed with error'' e) \<and>
           log (snd (eo, h2)) = log h @ replicate (Suc k) (CallStep 500000000))"
    by blast
  from d show ?thesis
  proof
    assume a: "\<not> mIsRunning M m' \<and> (eo, h2) = (None, \<lparr>st = m', log = log h @ replicate k (CallStep 500000000)\<rparr>)"
    then have "st h2 = m'" "eo = None" by auto
    then show ?thesis using rs a unfolding stops_clean_def stops_faulted_def
      by (cases "mIsErrored M m'") auto
  next
    assume "\<exists>e. mIsRunning M m' \<and> mStep M 500000000 m' = Inl e \<and>
           fst (eo, h2) = Some (Errorf ''machine execution failed with error'' e) \<and>
           log (snd (eo, h2)) = log h @ replicate (Suc k) (CallStep 500000000)"
    then show ?thesis using rs unfolding step_fails_def by auto
  qed
qed

lemma execute_loaded:
  assumes "GetHostIoMachine moduleRoot = Inr base"
    and "loadEntryToMachine M entry (Clone M base) = (None, h1)"
  shows "execute M GetHostIoMachine entry moduleRoot =
     (case stepLoop M 0 h1 of
        None \<Rightarrow> None
      | Some (Some e, h2) \<Rightarrow> Some ((GoGlobalState_zero, Some e), log (Destroy h2))
      | Some (None, h2) \<Rightarrow>
          (if mIsErrored M (st h2) then
             Some ((GoGlobalState_zero,
                    Some (ErrorNew ''machine entered errored state during attempted validation'')),
                   log (Destroy h2))
           else Some ((mGetGlobalState M (st h2), None), log (Destroy h2))))"
  using assms by (simp add: execute_def)

lemma execute_error_zero:
  "execute M G entry moduleRoot = Some ((gs, Some e), lg) \<Longrightarrow> gs = GoGlobalState_zero"
  by (auto simp: execute_def split: sum.splits prod.splits option.splits if_splits)

subsection \<open>The test doubles, evaluated\<close>

lemma mock_load:
  "loadEntryToMachine mock entry42 (Clone mock 0) =
     (None, \<lparr>st = 0, log = [CallClone, CallSetPreimageResolver,
         CallSetGlobalState \<lparr>BlockHash = 1, Batch = 5, PosInBatch = 10\<rparr>,
         CallAddSequencerInboxMessage 5 [97, 98, 99], CallAddDelayedInboxMessage 9 [100]]\<rparr>)"
  by (simp add: loadEntryToMachine_def invoke_def mock_def entry42_def Clone_def)

lemma mock_loop:
  "stepLoop mock s \<lparr>st = 0, log = l\<rparr> =
     Some (None, \<lparr>st = 2, log = l @ [CallStep 500000000, CallStep 500000000]\<rparr>)"
proof -
  have "run_steps mock (Suc (Suc 0)) (st \<lparr>st = 0, log = l\<rparr>) = Some 2"
    by (simp add: mock_def)
  moreover have "\<not> mIsRunning mock 2" by (simp add: mock_def)
  ultimately show ?thesis
    using stepLoop_complete_stop[of mock "Suc (Suc 0)" "\<lparr>st = 0, log = l\<rparr>" 2 s] by simp
qed

lemma mock_execute:
  "execute mock mock_loader entry42 7 =
     Some ((\<lparr>BlockHash = 3, Batch = 5, PosInBatch = 13\<rparr>, None),
       [CallClone, CallSetPreimageResolver,
         CallSetGlobalState \<lparr>BlockHash = 1, Batch = 5, PosInBatch = 10\<rparr>,
         CallAddSequencerInboxMessage 5 [97, 98, 99], CallAddDelayedInboxMessage 9 [100],
         CallStep 500000000, CallStep 500000000, CallDestroy])"
proof -
  have "mock_loader 7 = Inr 0" by (simp add: mock_loader_def)
  from execute_loaded[of mock_loader 7 0 mock entry42, OF this mock_load]
  show ?thesis by (simp add: mock_loop Destroy_def) (simp add: mock_def)
qed

lemma launched_eq:
  "launched = \<lparr>StopWaiter = (), count = 1, heap = [NewvalRun 7],
       threads = [\<lparr>t_run = 0, t_entry = entry42, t_moduleRoot = 7\<rparr>]\<rparr>"
  by (simp add: launched_def Launch_def initial_def Let_def)

lemma reach_launched: "steps exec [ActLaunch entry42 7] (initial ()) = Some launched"
  by (simp add: launched_def)

subsection \<open>Words and bytes\<close>

lemma byte_of_nat_mod: "(of_nat (n mod 256) :: 8 word) = of_nat n"
  by (simp add: word_of_nat_eq_iff take_bit_eq_mod)

lemma ucast_drop: "(ucast (drop_bit k (v :: 64 word)) :: 8 word) = of_nat (unat v div 2 ^ k)"
proof -
  have "(ucast (drop_bit k v) :: 8 word) = of_nat (unat (drop_bit k v))"
    by (rule of_nat_unat[symmetric])
  also have "unat (drop_bit k v) = unat v div 2 ^ k"
    by (simp only: unat_drop_bit_eq) (simp only: drop_bit_eq_div)
  finally show ?thesis .
qed

lemma sint_add_nat:
  fixes w :: "32 word"
  assumes "- (2 ^ 31) \<le> sint w + int n" "sint w + int n < 2 ^ 31"
  shows "sint (w + of_nat n) = sint w + int n"
proof -
  have "w + of_nat n = word_of_int (sint w + int n)" by simp
  then have "sint (w + of_nat n) = signed_take_bit 31 (sint w + int n)"
    by (simp only: sint_sbintrunc') simp
  then show ?thesis using assms by (simp add: signed_take_bit_int_eq_self)
qed

lemma room_int:
  fixes limit :: "64 word" and c :: "32 word"
  assumes "- (2 ^ 63) \<le> sint limit - sint c" "sint limit - sint c < 2 ^ 63"
  shows "sint (limit - scast c) = sint limit - sint c"
proof -
  have "limit - scast c = word_of_int (sint limit - sint c)" by simp
  then have "sint (limit - scast c) = signed_take_bit 63 (sint limit - sint c)"
    by (simp only: sint_sbintrunc') simp
  then show ?thesis using assms by (simp add: signed_take_bit_int_eq_self)
qed

lemma le_bytes_8:
  "le_bytes 8 n = [of_nat n, of_nat (n div 2 ^ 8), of_nat (n div 2 ^ 16), of_nat (n div 2 ^ 24),
      of_nat (n div 2 ^ 32), of_nat (n div 2 ^ 40), of_nat (n div 2 ^ 48), of_nat (n div 2 ^ 56)]"
proof -
  have 8: "(8::nat) = Suc (Suc (Suc (Suc (Suc (Suc (Suc (Suc 0)))))))" by simp
  have d: "n div 256 div 256 = n div 2 ^ 16" "n div 2 ^ 16 div 256 = n div 2 ^ 24"
    "n div 2 ^ 24 div 256 = n div 2 ^ 32" "n div 2 ^ 32 div 256 = n div 2 ^ 40"
    "n div 2 ^ 40 div 256 = n div 2 ^ 48" "n div 2 ^ 48 div 256 = n div 2 ^ 56"
    by (simp_all add: div_mult2_eq[symmetric])
  show ?thesis
    unfolding 8 le_bytes.simps byte_of_nat_mod d by simp
qed

lemma PutUint64_le_bytes: "PutUint64 v = le_bytes 8 (unat v)"
proof -
  have "(ucast v :: 8 word) = of_nat (unat v)" by (rule of_nat_unat[symmetric])
  then show ?thesis unfolding le_bytes_8 PutUint64_def ucast_drop by simp
qed

subsection \<open>Writing the file\<close>

lemma file_Write_content:
  "file_Write bs f = (None, f') \<Longrightarrow> content f' = content f @ bs"
  by (auto simp: file_Write_def split: list.splits option.splits)

lemma file_Write_unfailing:
  "\<forall>x \<in> set (upcoming f). x = None \<Longrightarrow>
   \<exists>f'. file_Write bs f = (None, f') \<and> (\<forall>x \<in> set (upcoming f'). x = None)"
  by (cases "upcoming f") (auto simp: file_Write_def)

lemma writeRecords_content:
  "writeRecords ds f = (None, f') \<Longrightarrow>
   content f' = content f @ concat (map (\<lambda>d. PutUint64 (of_nat (length d)) @ d) ds)"
proof (induction ds arbitrary: f)
  case Nil
  then show ?case by simp
next
  case (Cons d ds)
  from Cons.prems obtain f1 f2 where w1: "file_Write (PutUint64 (of_nat (length d))) f = (None, f1)"
    and w2: "file_Write d f1 = (None, f2)" and r: "writeRecords ds f2 = (None, f')"
    by (auto simp: Let_def split: prod.splits option.splits)
  from Cons.IH[OF r] file_Write_content[OF w1] file_Write_content[OF w2]
  show ?case by simp
qed

lemma writeRecords_unfailing:
  "\<forall>x \<in> set (upcoming f). x = None \<Longrightarrow> \<exists>f'. writeRecords ds f = (None, f')"
proof (induction ds arbitrary: f)
  case Nil
  then show ?case by simp
next
  case (Cons d ds)
  from file_Write_unfailing[OF Cons.prems] obtain f1
    where w1: "file_Write (PutUint64 (of_nat (length d))) f = (None, f1)"
      and u1: "\<forall>x \<in> set (upcoming f1). x = None" by blast
  from file_Write_unfailing[OF u1] obtain f2
    where w2: "file_Write d f1 = (None, f2)" and u2: "\<forall>x \<in> set (upcoming f2). x = None" by blast
  from Cons.IH[OF u2] obtain f' where "writeRecords ds f2 = (None, f')" by blast
  then show ?case using w1 w2 by (simp add: Let_def)
qed

lemma record_bytes:
  "length d < 2 ^ 64 \<Longrightarrow> PutUint64 (of_nat (length d)) = le_bytes 8 (length d)"
  by (simp add: PutUint64_le_bytes unat_of_nat)

subsection \<open>The errors of execute\<close>


subsection \<open>The counter\<close>

lemma Launch_count:
  "count (snd (Launch entry moduleRoot v)) = count v + 1 \<and>
   length (threads (snd (Launch entry moduleRoot v))) = Suc (length (threads v))"
  by (simp add: Launch_def Let_def)

lemma finish_count:
  assumes "finish exec i v = Some (Inr v')"
  shows "count v' = count v - 1 \<and> Suc (length (threads v')) = length (threads v)"
proof -
  from assms obtain res where i: "i < length (threads v)"
    and v': "v' = v\<lparr>threads := take i (threads v) @ drop (Suc i) (threads v),
            heap := (heap v)[t_run (threads v ! i) :=
               (heap v ! t_run (threads v ! i))\<lparr>chanReady := True, boolReady := 1, err := snd res, result := fst res\<rparr>],
            count := count v - 1\<rparr>"
    by (rule finish_Inr)
  show ?thesis using i by (simp add: v')
qed

lemma steps_count:
  "steps exec acts v = Some v' \<Longrightarrow>
   count v' + of_nat (length (threads v)) = count v + of_nat (length (threads v'))"
proof (induction acts arbitrary: v)
  case Nil
  then show ?case by simp
next
  case (Cons a acts)
  show ?case
  proof (cases a)
    case (ActLaunch entry moduleRoot)
    with Cons.prems have "steps exec acts (snd (Launch entry moduleRoot v)) = Some v'" by simp
    from Cons.IH[OF this] show ?thesis by (simp add: Launch_count)
  next
    case (ActFinish i)
    with Cons.prems obtain v1 where f: "finish exec i v = Some (Inr v1)"
      and s: "steps exec acts v1 = Some v'"
      by (auto split: option.splits sum.splits)
    from finish_count[OF f] have c: "count v1 = count v - 1"
      and l: "length (threads v) = Suc (length (threads v1))" by simp_all
    from Cons.IH[OF s] show ?thesis by (simp add: c l algebra_simps)
  qed
qed

lemma steps_launches:
  "\<exists>v'. steps exec (launches ls) v = Some v' \<and> count v' = count v + of_nat (length ls) \<and>
        length (threads v') = length (threads v) + length ls"
proof (induction ls arbitrary: v)
  case Nil
  then show ?case by (simp add: launches_def)
next
  case (Cons p ls)
  obtain entry moduleRoot where p: "p = (entry, moduleRoot)" by (cases p)
  from Cons.IH[of "snd (Launch entry moduleRoot v)"] show ?case
    by (auto simp: launches_def p Launch_count)
qed

section \<open>The claims\<close>

text \<open>
  Claim C1. While the thread that owns a run has not finished, \<open>Result\<close> on the run
  returns the zero state with \<open>ErrNotReady\<close>. When the thread finishes it resolves the
  run, and from then on, whatever launches and completions follow, the run stays ready,
  \<open>Result\<close> returns the pair the thread stored, and no thread that could resolve the run
  a second time exists.
\<close>

theorem future_resolved_once:
  assumes "steps exec acts0 (initial sw) = Some v" and "i < length (threads v)"
    and "exec (t_entry (threads v ! i)) (t_moduleRoot (threads v ! i)) = Some res"
  shows "Result (heap v ! t_run (threads v ! i)) = (GoGlobalState_zero, Some ErrNotReady) \<and>
         (\<exists>v1. finish exec i v = Some (Inr v1) \<and>
            Ready (heap v1 ! t_run (threads v ! i)) \<and>
            (\<forall>acts v2. steps exec acts v1 = Some v2 \<longrightarrow>
               Ready (heap v2 ! t_run (threads v ! i)) \<and>
               Result (heap v2 ! t_run (threads v ! i)) = res \<and>
               t_run (threads v ! i) \<notin> t_run ` set (threads v2)))"
proof -
  let ?p = "t_run (threads v ! i)"
  have cv: "consistent v" using assms(1) by (rule reachable_consistent)
  have "threads v ! i \<in> set (threads v)" using assms(2) by simp
  then have "\<not> Ready (heap v ! ?p)" using cv by (auto simp: consistent_def)
  then have a: "Result (heap v ! ?p) = (GoGlobalState_zero, Some ErrNotReady)"
    by (rule Result_not_ready)
  from finish_resolves[of v i exec res] cv assms(2,3) obtain v1 where f: "finish exec i v = Some (Inr v1)"
    and l: "?p < length (heap v1)" and r: "Ready (heap v1 ! ?p)"
    and res: "Result (heap v1 ! ?p) = res" by blast
  have c1: "consistent v1" using cv f by (rule consistent_finish)
  have b: "Ready (heap v2 ! ?p) \<and> Result (heap v2 ! ?p) = res \<and> ?p \<notin> t_run ` set (threads v2)"
    if s: "steps exec acts v1 = Some v2" for acts v2
  proof -
    have k: "heap v2 ! ?p = heap v1 ! ?p" and l2: "?p < length (heap v2)"
      using resolved_stable[OF c1 l r s] by simp_all
    have "consistent v2" using c1 s by (rule consistent_steps)
    then have "?p \<notin> t_run ` set (threads v2)" using r k by (auto simp: consistent_def)
    then show ?thesis using k r res by simp
  qed
  show ?thesis using a f r b by blast
qed

theorem future_resolved_once_witness:
  "steps (arbitrator_exec mock mock_loader) [ActLaunch entry42 7] (initial ()) = Some launched \<and>
   0 < length (threads launched) \<and>
   arbitrator_exec mock mock_loader (t_entry (threads launched ! 0)) (t_moduleRoot (threads launched ! 0)) =
     Some (\<lparr>BlockHash = 3, Batch = 5, PosInBatch = 13\<rparr>, None) \<and>
   Result (heap launched ! t_run (threads launched ! 0)) = (GoGlobalState_zero, Some ErrNotReady) \<and>
   (\<exists>v1. finish (arbitrator_exec mock mock_loader) 0 launched = Some (Inr v1) \<and>
      Ready (heap v1 ! t_run (threads launched ! 0)) \<and>
      Result (heap v1 ! t_run (threads launched ! 0)) =
        (\<lparr>BlockHash = 3, Batch = 5, PosInBatch = 13\<rparr>, None))"
proof -
  have h1: "steps (arbitrator_exec mock mock_loader) [ActLaunch entry42 7] (initial ()) =
      Some launched" by (rule reach_launched)
  have h2: "0 < length (threads launched)" by (simp add: launched_eq)
  have h3: "arbitrator_exec mock mock_loader (t_entry (threads launched ! 0))
       (t_moduleRoot (threads launched ! 0)) =
     Some (\<lparr>BlockHash = 3, Batch = 5, PosInBatch = 13\<rparr>, None)"
    by (simp add: launched_eq arbitrator_exec_def mock_execute)
  have s: "steps (arbitrator_exec mock mock_loader) [] v1 = Some v1" for v1 :: "unit process"
    by simp
  from future_resolved_once[of "arbitrator_exec mock mock_loader" "[ActLaunch entry42 7]" "()"
      launched 0 "(\<lparr>BlockHash = 3, Batch = 5, PosInBatch = 13\<rparr>, None)", OF h1 h2 h3] s h1 h2 h3
  show ?thesis by blast
qed

text \<open>
  Claim C2. Once the base machine is obtained and the entry is loaded into the clone,
  \<open>execute\<close> returns a result exactly when the run takes one of three exits: the machine
  stops running without fault and the result is its global state with no error; the
  machine stops running in the errored state and the result is the machine-fault error;
  a \<^verbatim>\<open>Step\<close> call returns an error and the result is that error wrapped. No two of the
  three exits can be taken by the same run. (When none is ever reached the loop does not
  return.)
\<close>

theorem execute_three_exits:
  assumes "GetHostIoMachine moduleRoot = Inr base"
    and "loadEntryToMachine M entry (Clone M base) = (None, h1)"
  shows "((\<exists>lg. execute M GetHostIoMachine entry moduleRoot = Some (r, lg)) \<longleftrightarrow>
            stops_clean M (st h1) r \<or> stops_faulted M (st h1) r \<or> step_fails M (st h1) r) \<and>
         \<not> (stops_clean M (st h1) r \<and> stops_faulted M (st h1) r') \<and>
         \<not> (stops_clean M (st h1) r \<and> step_fails M (st h1) r') \<and>
         \<not> (stops_faulted M (st h1) r \<and> step_fails M (st h1) r')"
proof (intro conjI)
  note ex = execute_loaded[of GetHostIoMachine moduleRoot base M entry h1, OF assms]
  show "(\<exists>lg. execute M GetHostIoMachine entry moduleRoot = Some (r, lg)) \<longleftrightarrow>
            stops_clean M (st h1) r \<or> stops_faulted M (st h1) r \<or> step_fails M (st h1) r"
  proof
    assume "\<exists>lg. execute M GetHostIoMachine entry moduleRoot = Some (r, lg)"
    then obtain lg where e: "execute M GetHostIoMachine entry moduleRoot = Some (r, lg)" ..
    then obtain eo h2 where l: "stepLoop M 0 h1 = Some (eo, h2)"
      unfolding ex by (cases "stepLoop M 0 h1") auto
    from loop_exits[OF l] e show "stops_clean M (st h1) r \<or> stops_faulted M (st h1) r \<or> step_fails M (st h1) r"
      unfolding ex l by auto
  next
    assume "stops_clean M (st h1) r \<or> stops_faulted M (st h1) r \<or> step_fails M (st h1) r"
    then show "\<exists>lg. execute M GetHostIoMachine entry moduleRoot = Some (r, lg)"
      using stops_clean_loop[of M h1 r 0] stops_faulted_loop[of M h1 r 0] step_fails_loop[of M h1 r 0]
      unfolding ex by auto
  qed
next
  show "\<not> (stops_clean M (st h1) r \<and> stops_faulted M (st h1) r')"
    using stops_clean_loop[of M h1 r 0] stops_faulted_loop[of M h1 r' 0] by auto
next
  show "\<not> (stops_clean M (st h1) r \<and> step_fails M (st h1) r')"
    using stops_clean_loop[of M h1 r 0] step_fails_loop[of M h1 r' 0] by auto
next
  show "\<not> (stops_faulted M (st h1) r \<and> step_fails M (st h1) r')"
    using stops_faulted_loop[of M h1 r 0] step_fails_loop[of M h1 r' 0] by auto
qed

theorem execute_three_exits_witness:
  "mock_loader 7 = Inr 0 \<and>
   loadEntryToMachine mock entry42 (Clone mock 0) =
     (None, \<lparr>st = 0, log = [CallClone, CallSetPreimageResolver,
         CallSetGlobalState \<lparr>BlockHash = 1, Batch = 5, PosInBatch = 10\<rparr>,
         CallAddSequencerInboxMessage 5 [97, 98, 99], CallAddDelayedInboxMessage 9 [100]]\<rparr>) \<and>
   stops_clean mock 0 (\<lparr>BlockHash = 3, Batch = 5, PosInBatch = 13\<rparr>, None) \<and>
   \<not> stops_faulted mock 0 (GoGlobalState_zero,
        Some (ErrorNew ''machine entered errored state during attempted validation''))"
proof -
  have h1: "mock_loader 7 = Inr 0" by (simp add: mock_loader_def)
  note t = execute_three_exits[of mock_loader 7 0 mock entry42 _
      "(\<lparr>BlockHash = 3, Batch = 5, PosInBatch = 13\<rparr>, None)", OF h1 mock_load]
  have c: "stops_clean mock 0 (\<lparr>BlockHash = 3, Batch = 5, PosInBatch = 13\<rparr>, None)"
    using t[of "(GoGlobalState_zero, None)"] mock_execute
    by (auto simp: stops_faulted_def step_fails_def)
  show ?thesis using h1 mock_load c t by auto
qed




text \<open>
  Claim C4. \<open>Launch\<close> adds one to the counter and a finished thread subtracts one; \<open>N\<close>
  launches raise it by \<open>N\<close> (as integers too, within the range of \<^verbatim>\<open>int32\<close>); over any
  sequence of launches and completions the counter moves by the change in the number of
  unfinished threads, so it is back at its old value once as many threads are unfinished
  as before. \<open>Room\<close> of either spawner is the configured limit, or the number of CPUs when
  the limit is zero, minus the counter (as integers too, within the range of \<^verbatim>\<open>int\<close>), and
  it can be negative.
\<close>

theorem in_flight_accounting:
  "count (snd (Launch entry moduleRoot v)) = count v + 1 \<and>
   (finish exec i v = Some (Inr v1) \<longrightarrow> count v1 = count v - 1) \<and>
   (\<exists>v2. steps exec (launches ls) v = Some v2 \<and> count v2 = count v + of_nat (length ls) \<and>
      (- (2 ^ 31) \<le> sint (count v) + int (length ls) \<and> sint (count v) + int (length ls) < 2 ^ 31 \<longrightarrow>
         sint (count v2) = sint (count v) + int (length ls))) \<and>
   (steps exec acts v = Some v3 \<longrightarrow>
      count v3 + of_nat (length (threads v)) = count v + of_nat (length (threads v3)) \<and>
      (length (threads v3) = length (threads v) \<longrightarrow> count v3 = count v)) \<and>
   ArbitratorSpawner_Room config NumCPU v =
     (if ConcurrentRuns config = 0 then NumCPU else ConcurrentRuns config) - scast (count v) \<and>
   JitSpawner_Room jconfig NumCPU v =
     (if JitConcurrentRuns jconfig = 0 then NumCPU else JitConcurrentRuns jconfig) - scast (count v) \<and>
   (- (2 ^ 63) \<le> sint (limit :: 64 word) - sint (count v) \<and>
    sint limit - sint (count v) < 2 ^ 63 \<longrightarrow>
      sint (limit - scast (count v)) = sint limit - sint (count v)) \<and>
   (\<exists>v4. steps exec (launches [(entry, moduleRoot), (entry, moduleRoot)]) (initial sw) = Some v4 \<and>
      sint (ArbitratorSpawner_Room \<lparr>ConcurrentRuns = 1, OutputPath = [], TargetMachineCount = 4\<rparr>
              NumCPU v4) = - 1)"
proof (intro conjI impI)
  show "count (snd (Launch entry moduleRoot v)) = count v + 1" by (simp add: Launch_count)
  show "count v1 = count v - 1" if "finish exec i v = Some (Inr v1)"
    using finish_count[OF that] by simp
  show "\<exists>v2. steps exec (launches ls) v = Some v2 \<and> count v2 = count v + of_nat (length ls) \<and>
      (- (2 ^ 31) \<le> sint (count v) + int (length ls) \<and> sint (count v) + int (length ls) < 2 ^ 31 \<longrightarrow>
         sint (count v2) = sint (count v) + int (length ls))"
    using steps_launches[of exec ls v] by (auto simp: sint_add_nat)
  show "count v3 + of_nat (length (threads v)) = count v + of_nat (length (threads v3))"
    if "steps exec acts v = Some v3" using that by (rule steps_count)
  show "count v3 = count v" if "steps exec acts v = Some v3" "length (threads v3) = length (threads v)"
    using steps_count[OF that(1)] that(2) by simp
  show "ArbitratorSpawner_Room config NumCPU v =
     (if ConcurrentRuns config = 0 then NumCPU else ConcurrentRuns config) - scast (count v)"
    by (simp add: ArbitratorSpawner_Room_def Let_def)
  show "JitSpawner_Room jconfig NumCPU v =
     (if JitConcurrentRuns jconfig = 0 then NumCPU else JitConcurrentRuns jconfig) - scast (count v)"
    by (simp add: JitSpawner_Room_def Let_def)
  show "sint (limit - scast (count v)) = sint limit - sint (count v)"
    if "- (2 ^ 63) \<le> sint limit - sint (count v) \<and> sint limit - sint (count v) < 2 ^ 63"
    using that room_int[of limit "count v"] by simp
  show "\<exists>v4. steps exec (launches [(entry, moduleRoot), (entry, moduleRoot)]) (initial sw) = Some v4 \<and>
      sint (ArbitratorSpawner_Room \<lparr>ConcurrentRuns = 1, OutputPath = [], TargetMachineCount = 4\<rparr>
              NumCPU v4) = - 1"
    by (simp add: launches_def Launch_def initial_def ArbitratorSpawner_Room_def Let_def)
qed

theorem in_flight_accounting_witness:
  "steps (arbitrator_exec mock mock_loader) [ActFinish 0] launched =
     Some \<lparr>StopWaiter = (), count = 0,
        heap = [\<lparr>chanReady = True, boolReady = 1, err = None, root = 7,
                 result = \<lparr>BlockHash = 3, Batch = 5, PosInBatch = 13\<rparr>\<rparr>],
        threads = []\<rparr> \<and>
   count launched = 1 \<and>
   sint (ArbitratorSpawner_Room \<lparr>ConcurrentRuns = 0, OutputPath = [], TargetMachineCount = 4\<rparr> 8
           launched) = 7"
proof -
  have s: "steps (arbitrator_exec mock mock_loader) [ActFinish 0] launched =
     Some \<lparr>StopWaiter = (), count = 0,
        heap = [\<lparr>chanReady = True, boolReady = 1, err = None, root = 7,
                 result = \<lparr>BlockHash = 3, Batch = 5, PosInBatch = 13\<rparr>\<rparr>],
        threads = []\<rparr>"
    by (simp add: launched_eq finish_def thread_body_def arbitrator_exec_def mock_execute
        consumeResult_def signalReady_def NewvalRun_def Let_def)
  have f: "finish (arbitrator_exec mock mock_loader) 0 launched =
     Some (Inr \<lparr>StopWaiter = (), count = 0,
        heap = [\<lparr>chanReady = True, boolReady = 1, err = None, root = 7,
                 result = \<lparr>BlockHash = 3, Batch = 5, PosInBatch = 13\<rparr>\<rparr>],
        threads = []\<rparr>)"
    by (simp add: launched_eq finish_def thread_body_def arbitrator_exec_def mock_execute
        consumeResult_def signalReady_def NewvalRun_def Let_def)
  have c: "count launched = 1" by (simp add: launched_eq)
  have b: "- (2 ^ 63) \<le> sint (8 :: 64 word) - sint (count launched) \<and>
           sint (8 :: 64 word) - sint (count launched) < 2 ^ 63"
    by (simp add: c)
  from in_flight_accounting[where entry=entry42 and moduleRoot=7 and v=launched
      and exec="arbitrator_exec mock mock_loader" and i=0
      and ?v1.0="\<lparr>StopWaiter = (), count = 0,
        heap = [\<lparr>chanReady = True, boolReady = 1, err = None, root = 7,
                 result = \<lparr>BlockHash = 3, Batch = 5, PosInBatch = 13\<rparr>\<rparr>],
        threads = []\<rparr>" and ls="[]" and acts="[ActFinish 0]"
      and ?v3.0="\<lparr>StopWaiter = (), count = 0,
        heap = [\<lparr>chanReady = True, boolReady = 1, err = None, root = 7,
                 result = \<lparr>BlockHash = 3, Batch = 5, PosInBatch = 13\<rparr>\<rparr>],
        threads = []\<rparr>"
      and config="\<lparr>ConcurrentRuns = 0, OutputPath = [], TargetMachineCount = 4\<rparr>"
      and NumCPU=8 and jconfig="\<lparr>JitConcurrentRuns = 0, Cranelift = True\<rparr>" and limit=8
      and sw="()"]
    s f c b
  show ?thesis by simp
qed




text \<open>
  Claim C6. On an input whose load fails, \<open>CreateExecutionBackend\<close> returns the error
  with a clone that has been neither destroyed nor frozen, while \<open>execute\<close> on the same
  input destroys its clone.
\<close>

theorem backend_clone_not_destroyed:
  "CreateExecutionBackend mock_bad_globalstate mock_loader mock_backend 4 7 entry42 =
     (Inl (Errorf ''error while setting global state for proving'' (External 2)),
      [CallClone, CallSetPreimageResolver,
       CallSetGlobalState \<lparr>BlockHash = 1, Batch = 5, PosInBatch = 10\<rparr>]) \<and>
   CallDestroy \<notin> set (snd (CreateExecutionBackend mock_bad_globalstate mock_loader mock_backend 4 7 entry42)) \<and>
   CallFreeze \<notin> set (snd (CreateExecutionBackend mock_bad_globalstate mock_loader mock_backend 4 7 entry42)) \<and>
   execute mock_bad_globalstate mock_loader entry42 7 =
     Some ((GoGlobalState_zero,
            Some (Errorf ''error while setting global state for proving'' (External 2))),
           [CallClone, CallSetPreimageResolver,
            CallSetGlobalState \<lparr>BlockHash = 1, Batch = 5, PosInBatch = 10\<rparr>, CallDestroy])"
  by (simp add: CreateExecutionBackend_def execute_def mock_loader_def loadEntryToMachine_def
      invoke_def mock_bad_globalstate_def mock_def entry42_def Clone_def Destroy_def)

text \<open>
  Claim C7 as stated fails for the JIT spawner: on a started spawner its \<open>Start\<close> calls
  the \<^verbatim>\<open>StopWaiter\<close>'s \<open>Start\<close> again and the state changes, where the native-interpreter
  spawner's does nothing.
\<close>

theorem jit_start_repeats_counterexample:
  "Started waiter_methods (StopWaiter started_spawner) \<and>
   JitSpawner_Start waiter_methods 2 started_spawner \<noteq> started_spawner \<and>
   ArbitratorSpawner_Start waiter_methods 2 started_spawner = started_spawner"
  by (simp add: JitSpawner_Start_def ArbitratorSpawner_Start_def waiter_methods_def
      started_spawner_def)

text \<open>
  Claim C7, as amended. \<open>Start\<close> of the native-interpreter spawner on a spawner that is
  already started leaves it unchanged. \<open>Start\<close> of the JIT spawner always forwards to the
  \<^verbatim>\<open>StopWaiter\<close>'s \<open>Start\<close>, and is a no-op exactly when that call is.
\<close>

theorem start_when_started:
  "(Started W (StopWaiter s) \<longrightarrow> ArbitratorSpawner_Start W ctx_in s = s) \<and>
   JitSpawner_Start W ctx_in s = s\<lparr>StopWaiter := Start W ctx_in (StopWaiter s)\<rparr> \<and>
   (JitSpawner_Start W ctx_in s = s \<longleftrightarrow> Start W ctx_in (StopWaiter s) = StopWaiter s)"
proof -
  have "s\<lparr>StopWaiter := x\<rparr> = s \<longleftrightarrow> x = StopWaiter s" for x
    by (cases s) auto
  then show ?thesis by (simp add: ArbitratorSpawner_Start_def JitSpawner_Start_def)
qed

theorem start_when_started_witness:
  "Started waiter_methods (StopWaiter started_spawner) \<and>
   ArbitratorSpawner_Start waiter_methods 2 started_spawner = started_spawner"
  using start_when_started[of waiter_methods started_spawner 2]
  by (simp add: waiter_methods_def started_spawner_def)



text \<open>
  Claim C9. When the export of \<^verbatim>\<open>preimages.bin\<close> succeeds, the file holds exactly, for
  each entry of the preimage map in the order of the iteration, the length of the entry
  as 8 little-endian bytes followed by its bytes, one record per entry; and the export
  succeeds when no write fails.
\<close>

theorem preimages_bin_format:
  assumes "iteration_of (Preimages input) order"
    and "\<forall>k \<in> dom (Preimages input). length (the (Preimages input k)) < 2 ^ 64"
  shows "(writePreimages (os_Create None sched) input order = (None, Some f) \<longrightarrow>
            content f = preimages_bin (range_values (Preimages input) order)) \<and>
         ((\<forall>x \<in> set sched. x = None) \<longrightarrow>
            (\<exists>f. writePreimages (os_Create None sched) input order = (None, Some f))) \<and>
         length (range_values (Preimages input) order) = card (dom (Preimages input))"
proof (intro conjI impI)
  let ?ds = "range_values (Preimages input) order"
  have b: "length d < 2 ^ 64" if "d \<in> set ?ds" for d
    using that assms by (auto simp: range_values_def iteration_of_def)
  have eq: "concat (map (\<lambda>d. PutUint64 (of_nat (length d)) @ d) ?ds) = preimages_bin ?ds"
    unfolding preimages_bin_def
    using record_bytes[OF b] by (intro arg_cong[where f=concat] map_cong) simp_all
  {
    assume "writePreimages (os_Create None sched) input order = (None, Some f)"
    then have "writeRecords ?ds \<lparr>content = [], upcoming = sched\<rparr> = (None, f)"
      by (auto simp: writePreimages_def os_Create_def split: prod.splits)
    from writeRecords_content[OF this] eq
    show "content f = preimages_bin ?ds" by simp
  }
  {
    assume "\<forall>x \<in> set sched. x = None"
    then have "\<forall>x \<in> set (upcoming \<lparr>content = [], upcoming = sched\<rparr>). x = None" by simp
    from writeRecords_unfailing[OF this, of ?ds]
    show "\<exists>f. writePreimages (os_Create None sched) input order = (None, Some f)"
      by (auto simp: writePreimages_def os_Create_def)
  }
  show "length ?ds = card (dom (Preimages input))"
    using assms(1) by (simp add: range_values_def iteration_of_def distinct_card[symmetric])
qed

theorem preimages_bin_format_witness:
  "iteration_of (Preimages entry42) [2] \<and>
   dom (Preimages entry42) = {2} \<and> length (the (Preimages entry42 2)) = 3 \<and>
   writePreimages (os_Create None []) entry42 [2] =
     (None, Some \<lparr>content = [3, 0, 0, 0, 0, 0, 0, 0, 120, 121, 122], upcoming = []\<rparr>) \<and>
   preimages_bin (range_values (Preimages entry42) [2]) = [3, 0, 0, 0, 0, 0, 0, 0, 120, 121, 122]"
proof -
  have h1: "iteration_of (Preimages entry42) [2]"
    by (simp add: iteration_of_def entry42_def)
  have h2: "\<forall>k \<in> dom (Preimages entry42). length (the (Preimages entry42 k)) < 2 ^ 64"
    by (simp add: entry42_def)
  have w: "writePreimages (os_Create None []) entry42 [2] =
     (None, Some \<lparr>content = [3, 0, 0, 0, 0, 0, 0, 0, 120, 121, 122], upcoming = []\<rparr>)"
    by (simp add: writePreimages_def os_Create_def range_values_def entry42_def file_Write_def
        PutUint64_def drop_bit_eq_div)
  from preimages_bin_format[OF h1 h2, of "[]" "\<lparr>content = [3, 0, 0, 0, 0, 0, 0, 0, 120, 121, 122], upcoming = []\<rparr>"]
    h1 w show ?thesis by (simp add: entry42_def)
qed

text \<open>
  Claim C10. When \<open>execute\<close> of the native-interpreter spawner returns a non-nil error,
  the state it returns is the zero value, and once the thread has finished \<open>Result\<close> on
  the run returns the zero state paired with that error.
\<close>

theorem failed_run_yields_zero_state:
  assumes "steps (arbitrator_exec M G) acts0 (initial sw) = Some v" and "i < length (threads v)"
    and "execute M G (t_entry (threads v ! i)) (t_moduleRoot (threads v ! i)) = Some ((gs, Some e), lg)"
  shows "gs = GoGlobalState_zero \<and>
         (\<exists>v1. finish (arbitrator_exec M G) i v = Some (Inr v1) \<and>
            Result (heap v1 ! t_run (threads v ! i)) = (GoGlobalState_zero, Some e))"
proof -
  have z: "gs = GoGlobalState_zero" using assms(3) by (rule execute_error_zero)
  have "arbitrator_exec M G (t_entry (threads v ! i)) (t_moduleRoot (threads v ! i)) =
          Some (GoGlobalState_zero, Some e)"
    using assms(3) z by (simp add: arbitrator_exec_def)
  from finish_resolves[of v i "arbitrator_exec M G", OF reachable_consistent[OF assms(1)] assms(2) this] z
  show ?thesis by blast
qed

theorem failed_run_yields_zero_state_witness:
  "steps (arbitrator_exec mock_bad_globalstate mock_loader) [ActLaunch entry42 7] (initial ()) =
     Some launched \<and>
   0 < length (threads launched) \<and>
   execute mock_bad_globalstate mock_loader (t_entry (threads launched ! 0))
       (t_moduleRoot (threads launched ! 0)) =
     Some ((GoGlobalState_zero,
            Some (Errorf ''error while setting global state for proving'' (External 2))),
           [CallClone, CallSetPreimageResolver,
            CallSetGlobalState \<lparr>BlockHash = 1, Batch = 5, PosInBatch = 10\<rparr>, CallDestroy]) \<and>
   (\<exists>v1. finish (arbitrator_exec mock_bad_globalstate mock_loader) 0 launched = Some (Inr v1) \<and>
      Result (heap v1 ! t_run (threads launched ! 0)) =
        (GoGlobalState_zero,
         Some (Errorf ''error while setting global state for proving'' (External 2))))"
proof -
  have h1: "steps (arbitrator_exec mock_bad_globalstate mock_loader) [ActLaunch entry42 7]
      (initial ()) = Some launched" by (rule reach_launched)
  have h2: "0 < length (threads launched)" by (simp add: launched_eq)
  have h3: "execute mock_bad_globalstate mock_loader (t_entry (threads launched ! 0))
       (t_moduleRoot (threads launched ! 0)) =
     Some ((GoGlobalState_zero,
            Some (Errorf ''error while setting global state for proving'' (External 2))),
           [CallClone, CallSetPreimageResolver,
            CallSetGlobalState \<lparr>BlockHash = 1, Batch = 5, PosInBatch = 10\<rparr>, CallDestroy])"
    by (simp add: launched_eq execute_def mock_loader_def loadEntryToMachine_def invoke_def
        mock_bad_globalstate_def mock_def entry42_def Clone_def Destroy_def)
  from failed_run_yields_zero_state[OF h1 h2 h3] h1 h2 h3
  show ?thesis by blast
qed

end
